theory Spec2Isabelle
  imports Main
begin

section \<open>Python strings\<close>

text \<open>
  A Python \<open>str\<close> is a sequence of Unicode code points, and \<open>len\<close> counts code points.
  The scripts use characters outside ASCII (the bullet glyph U+2022, emoji), so a string
  is modelled as the list of its code points.
\<close>

type_synonym pystr = "nat list"

definition asc :: "string \<Rightarrow> pystr" where
  "asc s = map of_char s"

text \<open>
  The characters for which \<open>str.isspace\<close> holds; \<open>str.split()\<close> without argument and
  \<open>str.strip()\<close> use this class.
\<close>

definition is_space :: "nat \<Rightarrow> bool" where
  "is_space c \<longleftrightarrow>
     (9 \<le> c \<and> c \<le> 13) \<or> (28 \<le> c \<and> c \<le> 32) \<or> c = 133 \<or> c = 160 \<or> c = 5760 \<or>
     (8192 \<le> c \<and> c \<le> 8202) \<or> c = 8232 \<or> c = 8233 \<or> c = 8239 \<or> c = 8287 \<or> c = 12288"

definition non_space :: "nat \<Rightarrow> bool" where
  "non_space c \<longleftrightarrow> \<not> is_space c"

text \<open>
  \<open>text.split()\<close>: the maximal runs of non-whitespace characters, in order; leading and
  trailing whitespace yields no empty word.
\<close>

function py_split :: "pystr \<Rightarrow> pystr list" where
  "py_split s =
     (let s' = dropWhile is_space s
      in if s' = [] then []
         else takeWhile non_space s' # py_split (dropWhile non_space s'))"
  by pat_completeness auto
termination
proof (relation "measure length")
  fix s s' :: pystr
  assume eq: "s' = dropWhile is_space s" and ne: "s' \<noteq> []"
  from ne obtain c cs where cons: "s' = c # cs"
    by (cases s') auto
  have d: "dropWhile is_space s = c # cs"
    using eq cons by simp
  have "\<not> is_space (hd (dropWhile is_space s))"
    by (rule hd_dropWhile) (simp add: d)
  then have "non_space c"
    by (simp add: d non_space_def)
  then have "length (dropWhile non_space s') \<le> length cs"
    by (simp add: cons length_dropWhile_le)
  also have "length cs < length s'"
    by (simp add: cons)
  also have "\<dots> \<le> length s"
    unfolding eq by (rule length_dropWhile_le)
  finally show "(dropWhile non_space s', s) \<in> measure length"
    by simp
qed simp

declare py_split.simps [simp del]

text \<open>\<open>sep.join(ws)\<close>.\<close>

fun join :: "pystr \<Rightarrow> pystr list \<Rightarrow> pystr" where
  "join sep [] = []"
| "join sep [w] = w"
| "join sep (w # v # ws) = w @ sep @ join sep (v # ws)"

text \<open>\<open>s.strip()\<close>: whitespace removed at both ends.\<close>

definition strip :: "pystr \<Rightarrow> pystr" where
  "strip s = rev (dropWhile is_space (rev (dropWhile is_space s)))"

section \<open>The chunking step of \<open>summarize\<close>\<close>

definition max_chunk_length :: nat where
  "max_chunk_length = 1024"

text \<open>
  The loop over \<open>words\<close>, with the variables \<open>chunks\<close>, \<open>current_chunk\<close> and
  \<open>current_length\<close> as arguments: the word is appended first, the length is tested after.
\<close>

fun chunk_loop :: "pystr list \<Rightarrow> pystr list \<Rightarrow> nat \<Rightarrow> pystr list \<Rightarrow> pystr list \<times> pystr list" where
  "chunk_loop chunks current_chunk current_length [] = (chunks, current_chunk)"
| "chunk_loop chunks current_chunk current_length (word # words) =
     (let current_chunk' = current_chunk @ [word];
          current_length' = current_length + (length word + 1)
      in if current_length' \<ge> max_chunk_length
         then chunk_loop (chunks @ [join [32] current_chunk']) [] 0 words
         else chunk_loop chunks current_chunk' current_length' words)"

definition make_chunks :: "pystr \<Rightarrow> pystr list" where
  "make_chunks text =
     (case chunk_loop [] [] 0 (py_split text) of
        (chunks, current_chunk) \<Rightarrow>
          if current_chunk \<noteq> [] then chunks @ [join [32] current_chunk] else chunks)"

text \<open>
  Two notions for stating properties of the chunks: a word is a non-empty string without
  whitespace, and \<open>wsum\<close> is what \<open>current_length\<close> holds after the words \<open>ws\<close>, each
  counted with one separator.
\<close>

definition is_word :: "pystr \<Rightarrow> bool" where
  "is_word w \<longleftrightarrow> w \<noteq> [] \<and> (\<forall>c\<in>set w. non_space c)"

definition wsum :: "pystr list \<Rightarrow> nat" where
  "wsum ws = sum_list (map (\<lambda>w. length w + 1) ws)"

section \<open>Collaborators and effects\<close>

text \<open>
  The media library, the speech recogniser, the summarization model and the file system
  are outside the repository: they are parameters of the model. A call either returns or
  raises an instance of \<open>Exception\<close>, which carries the text that \<open>str(e)\<close> gives. This
  holds for \<open>open(output_file, 'w')\<close>, for each \<open>f.write\<close> and for \<open>os.remove\<close> as well.
  Segment times are floating-point numbers; the two conversions that \<open>save_notes\<close>
  applies to them, \<open>int(t // 60)\<close> and \<open>int(t % 60)\<close>, are parameters too: each gives an
  integer or raises (as \<open>int\<close> does for a time that is not a number), and nothing else
  is assumed about floating-point arithmetic.
\<close>

datatype exn = Exception pystr

fun str_exn :: "exn \<Rightarrow> pystr" where
  "str_exn (Exception m) = m"

record 't segment =
  ts_start :: 't
  ts_end :: 't
  ts_text :: pystr

record 't engines =
  video_to_audio :: "pystr \<Rightarrow> pystr \<Rightarrow> exn option"
  whisper_transcribe :: "pystr \<Rightarrow> pystr \<Rightarrow> exn + ('t segment list \<times> pystr)"
  summarizer :: "pystr \<Rightarrow> nat \<Rightarrow> exn + pystr"
  open_write :: "pystr \<Rightarrow> exn option"
  file_write :: "pystr \<Rightarrow> pystr \<Rightarrow> exn option"
  path_exists :: "pystr \<Rightarrow> bool"
  remove_file :: "pystr \<Rightarrow> exn option"
  minutes_of :: "'t \<Rightarrow> exn + int"
  seconds_of :: "'t \<Rightarrow> exn + int"

text \<open>
  What a run does to the outside world, in order: lines printed, calls of the three
  collaborators, the notes file opened, each string passed to \<open>f.write\<close>, and the
  temporary audio file tested and removed.
\<close>

datatype event =
    Print pystr
  | Video_to_audio pystr pystr
  | Whisper_transcribe pystr pystr
  | Summarizer pystr
  | File_open pystr
  | File_write pystr pystr
  | Path_exists pystr
  | File_remove pystr

text \<open>\<open>str(n)\<close> for a natural number, and the format \<open>{n:02d}\<close> for an integer.\<close>

fun decimal :: "nat \<Rightarrow> pystr" where
  "decimal n = (if n < 10 then [48 + n] else decimal (n div 10) @ [48 + n mod 10])"

declare decimal.simps [simp del]

definition fmt_02d :: "int \<Rightarrow> pystr" where
  "fmt_02d n =
     (if n < 0 then 45 # decimal (nat (- n))
      else if n < 10 then 48 # decimal (nat n)
      else decimal (nat n))"

section \<open>\<open>extract_audio\<close> and \<open>transcribe\<close>\<close>

definition extract_audio :: "'t engines \<Rightarrow> pystr \<Rightarrow> pystr \<Rightarrow> event list \<times> pystr option" where
  "extract_audio env video_path audio_path =
     (let started = [Print (127925 # asc '' Extracting audio from '' @ video_path @ asc ''...''),
                     Video_to_audio video_path audio_path]
      in case video_to_audio env video_path audio_path of
           None \<Rightarrow> (started @ [Print (9989 # asc '' Audio extracted!'')], Some audio_path)
         | Some e \<Rightarrow>
             (started @ [Print (10060 # asc '' Error extracting audio: '' @ str_exn e)], None))"

fun transcript_loop :: "pystr \<Rightarrow> 't segment list \<Rightarrow> 't segment list \<Rightarrow> pystr \<times> 't segment list" where
  "transcript_loop transcript timestamps [] = (transcript, timestamps)"
| "transcript_loop transcript timestamps (segment # segments) =
     transcript_loop (transcript @ ts_text segment @ [32])
       (timestamps @ [\<lparr>ts_start = ts_start segment, ts_end = ts_end segment,
                       ts_text = ts_text segment\<rparr>])
       segments"

definition transcribe ::
  "'t engines \<Rightarrow> pystr \<Rightarrow> pystr \<Rightarrow> event list \<times> (exn + pystr \<times> 't segment list)" where
  "transcribe env audio_path language =
     (let started = [Print (128221 # asc '' Transcribing audio (language: '' @ language @ asc '')...''),
                     Whisper_transcribe audio_path language]
      in case whisper_transcribe env audio_path language of
           Inl e \<Rightarrow> (started, Inl e)
         | Inr (segments, info_language) \<Rightarrow>
             (case transcript_loop [] [] segments of
                (transcript, timestamps) \<Rightarrow>
                  (started @ [Print (9989 # asc '' Transcription complete! Detected language: ''
                                     @ info_language)],
                   Inr (strip transcript, timestamps))))"

section \<open>\<open>format_bullet_points\<close>\<close>

text \<open>\<open>s.replace(old, new)\<close>: the occurrences of \<open>old\<close> from left to right, not overlapping.\<close>

function py_replace :: "pystr \<Rightarrow> pystr \<Rightarrow> pystr \<Rightarrow> pystr" where
  "py_replace old new [] = (if old = [] then new else [])"
| "py_replace old new (c # cs) =
     (if old = [] then new @ c # py_replace old new cs
      else if take (length old) (c # cs) = old
      then new @ py_replace old new (drop (length old - 1) cs)
      else c # py_replace old new cs)"
  by pat_completeness auto
termination
  by (relation "measure (\<lambda>(old, new, s). length s)") auto

text \<open>\<open>s.split(sep)\<close> for a separator of one character: empty pieces are kept.\<close>

fun split_on :: "nat \<Rightarrow> pystr \<Rightarrow> pystr list" where
  "split_on sep [] = [[]]"
| "split_on sep (c # cs) =
     (if c = sep then [] # split_on sep cs
      else (case split_on sep cs of
              w # ws \<Rightarrow> (c # w) # ws
            | [] \<Rightarrow> [[c]]))"

fun sentence_loop :: "pystr list \<Rightarrow> pystr list \<Rightarrow> pystr list" where
  "sentence_loop bullet_points [] = bullet_points"
| "sentence_loop bullet_points (sentence # sentences) =
     (let sentence' = strip sentence
      in if length sentence' > 15
         then sentence_loop (bullet_points @ [[8226, 32] @ sentence']) sentences
         else sentence_loop bullet_points sentences)"

fun summary_loop :: "pystr list \<Rightarrow> pystr list \<Rightarrow> pystr list" where
  "summary_loop bullet_points [] = bullet_points"
| "summary_loop bullet_points (summary # summaries) =
     summary_loop
       (sentence_loop bullet_points (split_on 124 (py_replace [46, 32] [46, 124] summary)))
       summaries"

definition bullet_points :: "pystr list \<Rightarrow> pystr list" where
  "bullet_points summaries = summary_loop [] summaries"

definition format_bullet_points :: "pystr list \<Rightarrow> pystr" where
  "format_bullet_points summaries = join [10] (bullet_points summaries)"

section \<open>\<open>summarize\<close>\<close>

text \<open>
  The loop over \<open>enumerate(chunks)\<close>; \<open>n\<close> is \<open>len(chunks)\<close>, \<open>evs\<close> the effects so far.
  An exception of the model leaves the loop and \<open>summarize\<close>.
\<close>

fun summarize_loop ::
  "'t engines \<Rightarrow> nat \<Rightarrow> nat \<Rightarrow> nat \<Rightarrow> event list \<Rightarrow> pystr list \<Rightarrow> pystr list
     \<Rightarrow> event list \<times> (exn + pystr list)" where
  "summarize_loop env max_length n i evs summaries [] = (evs, Inr summaries)"
| "summarize_loop env max_length n i evs summaries (chunk # chunks) =
     (let evs' = evs @ [Print (asc ''  Extracting key points from chunk '' @ decimal (i + 1)
                               @ [47] @ decimal n @ asc ''...'')]
      in if length (py_split chunk) > 50
         then (case summarizer env chunk max_length of
                 Inl e \<Rightarrow> (evs' @ [Summarizer chunk], Inl e)
               | Inr summary_text \<Rightarrow>
                   summarize_loop env max_length n (i + 1) (evs' @ [Summarizer chunk])
                     (summaries @ [summary_text]) chunks)
         else summarize_loop env max_length n (i + 1) evs' summaries chunks)"

definition summarize :: "'t engines \<Rightarrow> pystr \<Rightarrow> nat \<Rightarrow> event list \<times> (exn + pystr)" where
  "summarize env text max_length =
     (let chunks = make_chunks text
      in case summarize_loop env max_length (length chunks) 0
                [Print (129302 # asc '' Generating key points summary...'')] [] chunks of
           (evs, Inl e) \<Rightarrow> (evs, Inl e)
         | (evs, Inr summaries) \<Rightarrow>
             (evs @ [Print (9989 # asc '' Key points extracted!'')],
              Inr (format_bullet_points summaries)))"

section \<open>\<open>save_notes\<close> and \<open>process_video\<close>\<close>

text \<open>The string written for one timestamp: \<open>f"[{minutes:02d}:{seconds:02d}] {ts['text']}\n"\<close>.\<close>

definition timestamp_line :: "int \<Rightarrow> int \<Rightarrow> pystr \<Rightarrow> pystr" where
  "timestamp_line minutes seconds text =
     [91] @ fmt_02d minutes @ [58] @ fmt_02d seconds @ [93, 32] @ text @ [10]"

text \<open>
  The loop over \<open>enumerate(timestamps)\<close> from index \<open>i\<close> on, writing to the open file
  \<open>f\<close>: the two conversions, then the write. The first exception leaves the loop.
\<close>

fun timestamp_loop :: "'t engines \<Rightarrow> pystr \<Rightarrow> nat \<Rightarrow> 't segment list \<Rightarrow> event list \<times> exn option" where
  "timestamp_loop env f i [] = ([], None)"
| "timestamp_loop env f i (ts # timestamps) =
     (if i mod 5 = 0 \<and> i < 40
      then (case minutes_of env (ts_start ts) of
              Inl e \<Rightarrow> ([], Some e)
            | Inr minutes \<Rightarrow>
                (case seconds_of env (ts_start ts) of
                   Inl e \<Rightarrow> ([], Some e)
                 | Inr seconds \<Rightarrow>
                     (case file_write env f (timestamp_line minutes seconds (ts_text ts)) of
                        Some e \<Rightarrow>
                          ([File_write f (timestamp_line minutes seconds (ts_text ts))], Some e)
                      | None \<Rightarrow>
                          (case timestamp_loop env f (i + 1) timestamps of
                             (evs, r) \<Rightarrow>
                               (File_write f (timestamp_line minutes seconds (ts_text ts)) # evs,
                                r)))))
      else timestamp_loop env f (i + 1) timestamps)"

text \<open>The arguments of the calls of \<open>f.write\<close>, in order, before the timestamp loop.\<close>

definition notes_header :: "pystr \<Rightarrow> pystr list" where
  "notes_header summary =
     [replicate 60 61 @ [10],
      128221 # asc '' IMPORTANT POINTS - AI NOTES SUMMARY'' @ [10],
      replicate 60 61 @ [10, 10],
      127919 # asc '' KEY TAKEAWAYS'' @ [10],
      replicate 60 45 @ [10, 10],
      summary @ [10, 10],
      [10] @ replicate 60 61 @ [10, 10],
      128161 # asc '' NOTE: Full transcript available if needed'' @ [10],
      asc ''The above points capture the essential information.'' @ [10, 10],
      replicate 60 61 @ [10],
      [9201, 65039] @ asc '' TIMESTAMPS'' @ [10],
      replicate 60 61 @ [10, 10]]"

text \<open>A sequence of calls of \<open>f.write\<close>; the first exception ends it.\<close>

fun write_all :: "'t engines \<Rightarrow> pystr \<Rightarrow> pystr list \<Rightarrow> event list \<times> exn option" where
  "write_all env f [] = ([], None)"
| "write_all env f (s # ss) =
     (case file_write env f s of
        Some e \<Rightarrow> ([File_write f s], Some e)
      | None \<Rightarrow> (case write_all env f ss of (evs, r) \<Rightarrow> (File_write f s # evs, r)))"

text \<open>
  \<open>save_notes\<close> returns nothing; the second component is the exception with which it
  leaves, if any. The last line printed is outside the \<open>with\<close> block.
\<close>

definition save_notes ::
  "'t engines \<Rightarrow> pystr \<Rightarrow> pystr \<Rightarrow> 't segment list \<Rightarrow> pystr \<Rightarrow> event list \<times> exn option" where
  "save_notes env transcript summary timestamps output_file =
     (let started = [Print (128190 # asc '' Saving notes to '' @ output_file @ asc ''...''),
                     File_open output_file]
      in case open_write env output_file of
           Some e \<Rightarrow> (started, Some e)
         | None \<Rightarrow>
             (case write_all env output_file (notes_header summary) of
                (evs1, Some e) \<Rightarrow> (started @ evs1, Some e)
              | (evs1, None) \<Rightarrow>
                  (case timestamp_loop env output_file 0 timestamps of
                     (evs2, Some e) \<Rightarrow> (started @ evs1 @ evs2, Some e)
                   | (evs2, None) \<Rightarrow>
                       (started @ evs1 @ evs2
                          @ [Print (9989 # asc '' Notes saved successfully!'')],
                        None))))"

record 't results =
  res_transcript :: pystr
  res_summary :: pystr
  res_timestamps :: "'t segment list"

text \<open>
  \<open>process_video\<close> returns \<open>None\<close>, the dictionary of results, or leaves with the
  exception of a collaborator.
\<close>

definition process_video ::
  "'t engines \<Rightarrow> pystr \<Rightarrow> pystr \<Rightarrow> pystr \<Rightarrow> event list \<times> (exn + 't results option)" where
  "process_video env video_path language output_file =
     (let banner = [Print ([10] @ replicate 60 61),
                    Print (127916 # asc '' Processing: '' @ video_path),
                    Print (replicate 60 61 @ [10])]
      in case extract_audio env video_path (asc ''temp_audio.mp3'') of
           (evs1, None) \<Rightarrow> (banner @ evs1, Inr None)
         | (evs1, Some audio_path) \<Rightarrow>
             if audio_path = [] then (banner @ evs1, Inr None)
             else (case transcribe env audio_path language of
                     (evs2, Inl e) \<Rightarrow> (banner @ evs1 @ evs2, Inl e)
                   | (evs2, Inr (transcript, timestamps)) \<Rightarrow>
                       (case summarize env transcript 130 of
                          (evs3, Inl e) \<Rightarrow> (banner @ evs1 @ evs2 @ evs3, Inl e)
                        | (evs3, Inr summary) \<Rightarrow>
                            (case save_notes env transcript summary timestamps output_file of
                               (evs4, Some e) \<Rightarrow> (banner @ evs1 @ evs2 @ evs3 @ evs4, Inl e)
                             | (evs4, None) \<Rightarrow>
                                 if path_exists env audio_path
                                 then (case remove_file env audio_path of
                                         Some e \<Rightarrow>
                                           (banner @ evs1 @ evs2 @ evs3 @ evs4
                                              @ [Path_exists audio_path, File_remove audio_path],
                                            Inl e)
                                       | None \<Rightarrow>
                                           (banner @ evs1 @ evs2 @ evs3 @ evs4
                                              @ [Path_exists audio_path, File_remove audio_path],
                                            Inr (Some \<lparr>res_transcript = transcript,
                                                       res_summary = summary,
                                                       res_timestamps = timestamps\<rparr>)))
                                 else (banner @ evs1 @ evs2 @ evs3 @ evs4
                                         @ [Path_exists audio_path],
                                       Inr (Some \<lparr>res_transcript = transcript,
                                                  res_summary = summary,
                                                  res_timestamps = timestamps\<rparr>))))))"

section \<open>\<open>split_into_sentences\<close>\<close>

text \<open>
  The pattern of \<open>re.split\<close> is \<open>\n|\<bullet>|- |\*|\d+\)\<close> (with U+2022 for the bullet). The class
  \<open>\d\<close> is the decimal digits of the Unicode tables of the Python runtime: it is the
  parameter \<open>dig\<close>. \<open>digits_paren\<close> is the length of the match of \<open>\d+\)\<close> at the front of
  the string: as many digits as possible, one fewer where no parenthesis follows.
\<close>

fun digits_paren :: "(nat \<Rightarrow> bool) \<Rightarrow> pystr \<Rightarrow> nat option" where
  "digits_paren dig [] = None"
| "digits_paren dig (c # cs) =
     (if dig c
      then (case digits_paren dig cs of
              Some n \<Rightarrow> Some (n + 1)
            | None \<Rightarrow> if take 1 cs = [41] then Some 2 else None)
      else None)"

text \<open>The alternatives are tried in the order of the pattern.\<close>

fun match_delimiter :: "(nat \<Rightarrow> bool) \<Rightarrow> pystr \<Rightarrow> nat option" where
  "match_delimiter dig [] = None"
| "match_delimiter dig (c # cs) =
     (if c = 10 then Some 1
      else if c = 8226 then Some 1
      else if c = 45 \<and> take 1 cs = [32] then Some 2
      else if c = 42 then Some 1
      else digits_paren dig (c # cs))"

text \<open>
  \<open>re.split(pattern, text)\<close>: the text is cut at the leftmost matches, which do not
  overlap; \<open>piece\<close> is the text since the last match.
\<close>

function re_split :: "(nat \<Rightarrow> bool) \<Rightarrow> pystr \<Rightarrow> pystr \<Rightarrow> pystr list" where
  "re_split dig piece [] = [piece]"
| "re_split dig piece (c # cs) =
     (case match_delimiter dig (c # cs) of
        Some n \<Rightarrow> piece # re_split dig [] (drop (n - 1) cs)
      | None \<Rightarrow> re_split dig (piece @ [c]) cs)"
  by pat_completeness auto
termination
  by (relation "measure (\<lambda>(dig, piece, s). length s)") auto

definition split_into_sentences :: "(nat \<Rightarrow> bool) \<Rightarrow> pystr \<Rightarrow> pystr list" where
  "split_into_sentences dig text =
     (let lines = re_split dig [] text
      in map strip (filter (\<lambda>l. strip l \<noteq> []) lines))"

section \<open>\<open>build_knowledge_base\<close> and \<open>answer_question\<close>\<close>

text \<open>
  Reading the file, scikit-learn and numpy are outside the repository and are parameters:
  the fitted vectorizer gives each text its row, \<open>cosine_similarity\<close> gives the score of
  the row of the question against the row of a unit, and \<open>argsort\<close> gives the indices of
  the scores in its order. Nothing is assumed about the rows, the scores or the order of
  equal scores.
\<close>

record ('m, 'v, 's) library =
  read_text :: "pystr \<Rightarrow> exn + pystr"
  tfidf_fit :: "pystr list \<Rightarrow> exn + 'm"
  tfidf_transform :: "'m \<Rightarrow> pystr \<Rightarrow> 'v"
  cosine_similarity :: "'v \<Rightarrow> 'v \<Rightarrow> 's"
  argsort :: "'s list \<Rightarrow> nat list"

definition load_text_from_txt :: "('m, 'v, 's) library \<Rightarrow> pystr \<Rightarrow> exn + pystr" where
  "load_text_from_txt lib txt_file = read_text lib txt_file"

definition build_knowledge_base ::
  "('m, 'v, 's) library \<Rightarrow> (nat \<Rightarrow> bool) \<Rightarrow> pystr \<Rightarrow> exn + (pystr list \<times> 'm \<times> 'v list)" where
  "build_knowledge_base lib dig txt_file =
     (case load_text_from_txt lib txt_file of
        Inl e \<Rightarrow> Inl e
      | Inr text \<Rightarrow>
          (let sentences = split_into_sentences dig text
           in case tfidf_fit lib sentences of
                Inl e \<Rightarrow> Inl e
              | Inr vectorizer \<Rightarrow>
                  Inr (sentences, vectorizer, map (tfidf_transform lib vectorizer) sentences)))"

text \<open>The slice \<open>xs[:k]\<close>.\<close>

definition py_take :: "int \<Rightarrow> 'a list \<Rightarrow> 'a list" where
  "py_take k xs = (if 0 \<le> k then take (nat k) xs else take (length xs - nat (- k)) xs)"

text \<open>
  \<open>sims.argsort()[::-1][:top_k]\<close>, then \<open>sentences[top_indices[0]]\<close>, which raises when
  there is no such index.
\<close>

definition answer_question ::
  "('m, 'v, 's) library \<Rightarrow> pystr \<Rightarrow> pystr list \<Rightarrow> 'm \<Rightarrow> 'v list \<Rightarrow> int \<Rightarrow> exn + pystr" where
  "answer_question lib question sentences vectorizer sentence_vectors top_k =
     (let q_vec = tfidf_transform lib vectorizer question;
          sims = map (cosine_similarity lib q_vec) sentence_vectors;
          top_indices = py_take top_k (rev (argsort lib sims))
      in case top_indices of
           [] \<Rightarrow> Inl (Exception (asc ''index 0 is out of bounds for axis 0 with size 0''))
         | i # _ \<Rightarrow>
             if i < length sentences
             then Inr ([10, 128204] @ asc '' Most Relevant Answer:'' @ [10] @ sentences ! i)
             else Inl (Exception (asc ''list index out of range'')))"

section \<open>Notions used in the properties\<close>

text \<open>The chunks that a run passed to the summarization model, in order.\<close>

fun summarizer_calls :: "event list \<Rightarrow> pystr list" where
  "summarizer_calls [] = []"
| "summarizer_calls (Summarizer chunk # evs) = chunk # summarizer_calls evs"
| "summarizer_calls (_ # evs) = summarizer_calls evs"

text \<open>The effects of the stages of \<open>process_video\<close> after the extraction of the audio.\<close>

fun later_stage :: "event \<Rightarrow> bool" where
  "later_stage (Print _) = False"
| "later_stage (Video_to_audio _ _) = False"
| "later_stage _ = True"

text \<open>
  The marker substitution of \<open>format_bullet_points\<close> said directly: a full stop
  followed by a space becomes a full stop followed by a bar.
\<close>

fun dot_space_marked :: "pystr \<Rightarrow> pystr" where
  "dot_space_marked (a # b # s) =
     (if a = 46 \<and> b = 32 then 46 # 124 # dot_space_marked s else a # dot_space_marked (b # s))"
| "dot_space_marked s = s"


text \<open>
  A text without delimiter: no newline, no bullet, no asterisk, no hyphen followed by a
  space, no digit followed by a closing parenthesis.
\<close>

fun adjacent :: "(nat \<Rightarrow> nat \<Rightarrow> bool) \<Rightarrow> pystr \<Rightarrow> bool" where
  "adjacent P (a # b # s) = (P a b \<or> adjacent P (b # s))"
| "adjacent P _ = False"

definition hyphen_space :: "nat \<Rightarrow> nat \<Rightarrow> bool" where
  "hyphen_space a b \<longleftrightarrow> a = 45 \<and> b = 32"

definition digit_paren :: "(nat \<Rightarrow> bool) \<Rightarrow> nat \<Rightarrow> nat \<Rightarrow> bool" where
  "digit_paren dig a b \<longleftrightarrow> dig a \<and> b = 41"

definition no_delimiter :: "(nat \<Rightarrow> bool) \<Rightarrow> pystr \<Rightarrow> bool" where
  "no_delimiter dig text \<longleftrightarrow>
     10 \<notin> set text \<and> 8226 \<notin> set text \<and> 42 \<notin> set text
     \<and> \<not> adjacent hyphen_space text \<and> \<not> adjacent (digit_paren dig) text"

text \<open>Collaborators for concrete runs: times in whole seconds, the digits of ASCII.\<close>

definition ascii_digit :: "nat \<Rightarrow> bool" where
  "ascii_digit c \<longleftrightarrow> 48 \<le> c \<and> c \<le> 57"

definition sample_engines :: "int engines" where
  "sample_engines =
     \<lparr>video_to_audio = (\<lambda>video_path audio_path. None),
      whisper_transcribe = (\<lambda>audio_path language.
        Inr ([\<lparr>ts_start = 0, ts_end = 2, ts_text = asc '' hello world''\<rparr>], asc ''en'')),
      summarizer = (\<lambda>chunk max_length. Inr (take max_length chunk)),
      open_write = (\<lambda>path. None),
      file_write = (\<lambda>path s. None),
      path_exists = (\<lambda>path. True),
      remove_file = (\<lambda>path. None),
      minutes_of = (\<lambda>t. Inr (t div 60)),
      seconds_of = (\<lambda>t. Inr (t mod 60))\<rparr>"

definition no_audio_engines :: "int engines" where
  "no_audio_engines =
     sample_engines\<lparr>video_to_audio :=
       (\<lambda>video_path audio_path. Some (Exception (asc ''no audio track'')))\<rparr>"




text \<open>An order of the indices in which the scores ascend, as \<open>argsort\<close> is documented.\<close>

definition ascending_argsort :: "'s::linorder list \<Rightarrow> nat list \<Rightarrow> bool" where
  "ascending_argsort sims idx \<longleftrightarrow>
     sort idx = [0..<length sims] \<and> sorted (map (\<lambda>i. sims ! i) idx)"

text \<open>
  A small library for concrete runs: the row of a text is its list of words, the score of
  two rows is the number of pairs of equal words, and the indices of equal scores stay in
  their order.
\<close>

definition shared_words :: "pystr list \<Rightarrow> pystr list \<Rightarrow> nat" where
  "shared_words q v = sum_list (map (\<lambda>w. count_list v w) q)"

definition word_count_library :: "(unit, pystr list, nat) library" where
  "word_count_library =
     \<lparr>read_text = (\<lambda>txt_file.
        if txt_file = asc ''pets.txt'' then Inr (asc ''cat dog'' @ 10 # asc ''dog cat'')
        else if txt_file = asc ''notes.txt'' then Inr (asc ''cat'' @ 10 # asc ''big dog'')
        else Inl (Exception (asc ''No such file or directory''))),
      tfidf_fit = (\<lambda>sentences. Inr ()),
      tfidf_transform = (\<lambda>vectorizer text. py_split text),
      cosine_similarity = shared_words,
      argsort = (\<lambda>sims. sort_key (\<lambda>i. sims ! i) [0..<length sims])\<rparr>"

section \<open>Splitting and joining words\<close>

lemma py_split_unfold:
  "py_split s =
     (if dropWhile is_space s = [] then []
      else takeWhile non_space (dropWhile is_space s)
             # py_split (dropWhile non_space (dropWhile is_space s)))"
  by (subst py_split.simps) (simp only: Let_def)

lemma py_split_Nil: "py_split [] = []"
  by (subst py_split_unfold) simp

lemma py_split_space: "is_space c \<Longrightarrow> py_split (c # s) = py_split s"
  by (subst py_split_unfold, subst (2) py_split_unfold) simp

lemma py_split_word_sep:
  assumes "is_word w" "is_space c"
  shows "py_split (w @ c # rest) = w # py_split rest"
proof -
  from assms(1) obtain a as where w: "w = a # as" and a: "\<not> is_space a"
    by (cases w) (auto simp: is_word_def non_space_def)
  have all: "\<forall>x\<in>set w. non_space x"
    using assms(1) by (simp add: is_word_def)
  have d: "dropWhile is_space (w @ c # rest) = w @ c # rest"
    using a by (simp add: w)
  have t: "takeWhile non_space (w @ c # rest) = w"
    using all assms(2) by (simp add: non_space_def)
  have r: "dropWhile non_space (w @ c # rest) = c # rest"
    using all assms(2) by (simp add: non_space_def)
  have ne: "w @ c # rest \<noteq> []"
    by simp
  have "py_split (w @ c # rest) = w # py_split (c # rest)"
    by (subst py_split_unfold) (simp only: d t r ne if_False)
  then show ?thesis
    by (simp add: py_split_space assms(2))
qed

lemma py_split_word:
  assumes "is_word w"
  shows "py_split w = [w]"
proof -
  from assms obtain a as where w: "w = a # as" and a: "\<not> is_space a"
    by (cases w) (auto simp: is_word_def non_space_def)
  have all: "\<forall>x\<in>set w. non_space x"
    using assms by (simp add: is_word_def)
  have d: "dropWhile is_space w = w"
    using a by (simp add: w)
  have t: "takeWhile non_space w = w" and r: "dropWhile non_space w = []"
    using all by simp_all
  have ne: "w \<noteq> []"
    by (simp add: w)
  show ?thesis
    by (subst py_split_unfold) (simp only: d t r ne if_False py_split_Nil)
qed

lemma py_split_is_word: "w \<in> set (py_split s) \<Longrightarrow> is_word w"
proof (induction s rule: py_split.induct)
  case (1 s)
  show ?case
  proof (cases "dropWhile is_space s = []")
    case True
    then have "py_split s = []"
      by (subst py_split_unfold) simp
    with "1.prems" show ?thesis
      by simp
  next
    case False
    then have hd: "\<not> is_space (hd (dropWhile is_space s))"
      by (rule hd_dropWhile)
    from False obtain a as where d: "dropWhile is_space s = a # as"
      by (cases "dropWhile is_space s") auto
    have tw: "is_word (takeWhile non_space (dropWhile is_space s))"
      using hd d by (auto simp: is_word_def non_space_def dest: set_takeWhileD)
    have "py_split s = takeWhile non_space (dropWhile is_space s)
            # py_split (dropWhile non_space (dropWhile is_space s))"
      by (subst py_split_unfold) (simp only: False if_False)
    with "1.prems" have
      "w = takeWhile non_space (dropWhile is_space s)
       \<or> w \<in> set (py_split (dropWhile non_space (dropWhile is_space s)))"
      by simp
    then show ?thesis
      using tw "1.IH" [OF refl False] by auto
  qed
qed

lemma py_split_join:
  "\<forall>w\<in>set ws. is_word w \<Longrightarrow> py_split (join [32] ws) = ws"
proof (induction "[32::nat]" ws rule: join.induct)
  case 1
  then show ?case by (simp add: py_split_Nil)
next
  case (2 w)
  then show ?case by (simp add: py_split_word)
next
  case (3 w v ws)
  have sp: "is_space 32" by (simp add: is_space_def)
  from 3 show ?case
    by (simp add: py_split_word_sep [OF _ sp])
qed

lemma length_join:
  "ws \<noteq> [] \<Longrightarrow> length (join [32] ws) + 1 = wsum ws"
  by (induction "[32::nat]" ws rule: join.induct) (simp_all add: wsum_def)

lemma wsum_append: "wsum (xs @ ys) = wsum xs + wsum ys"
  by (simp add: wsum_def)

lemma chunk_loop_groups:
  "wsum cur < max_chunk_length \<Longrightarrow> len = wsum cur \<Longrightarrow>
   \<exists>gs cur'. chunk_loop chunks cur len ws = (chunks @ map (join [32]) gs, cur')
     \<and> concat gs @ cur' = cur @ ws
     \<and> (\<forall>g\<in>set gs. g \<noteq> [] \<and> max_chunk_length \<le> wsum g \<and> wsum (butlast g) < max_chunk_length)
     \<and> wsum cur' < max_chunk_length"
proof (induction ws arbitrary: chunks cur len)
  case Nil
  then show ?case
    by (intro exI [of _ "[]"] exI [of _ cur]) simp
next
  case (Cons w ws)
  let ?cur = "cur @ [w]"
  have len': "len + (length w + 1) = wsum ?cur"
    using Cons.prems by (simp add: wsum_def)
  show ?case
  proof (cases "max_chunk_length \<le> wsum ?cur")
    case True
    have z: "wsum [] < max_chunk_length" "0 = wsum []"
      by (simp_all add: wsum_def max_chunk_length_def)
    from Cons.IH [OF z, of "chunks @ [join [32] ?cur]"]
    obtain gs cur' where
      run: "chunk_loop (chunks @ [join [32] ?cur]) [] 0 ws
              = ((chunks @ [join [32] ?cur]) @ map (join [32]) gs, cur')"
      and cat: "concat gs @ cur' = [] @ ws"
      and grp: "\<forall>g\<in>set gs. g \<noteq> [] \<and> max_chunk_length \<le> wsum g
                  \<and> wsum (butlast g) < max_chunk_length"
      and lt: "wsum cur' < max_chunk_length"
      by blast
    have "chunk_loop chunks cur len (w # ws) = (chunks @ map (join [32]) (?cur # gs), cur')"
      using True run len' by (simp add: Let_def)
    moreover have "concat (?cur # gs) @ cur' = cur @ w # ws"
      using cat by simp
    moreover have "\<forall>g\<in>set (?cur # gs). g \<noteq> [] \<and> max_chunk_length \<le> wsum g
                     \<and> wsum (butlast g) < max_chunk_length"
      using grp True Cons.prems(1) by simp
    ultimately show ?thesis
      using lt by blast
  next
    case False
    then have lt: "wsum ?cur < max_chunk_length"
      by simp
    from Cons.IH [OF lt refl, of chunks]
    obtain gs cur' where
      run: "chunk_loop chunks ?cur (wsum ?cur) ws = (chunks @ map (join [32]) gs, cur')"
      and cat: "concat gs @ cur' = ?cur @ ws"
      and grp: "\<forall>g\<in>set gs. g \<noteq> [] \<and> max_chunk_length \<le> wsum g
                  \<and> wsum (butlast g) < max_chunk_length"
      and lt': "wsum cur' < max_chunk_length"
      by blast
    have "chunk_loop chunks cur len (w # ws) = (chunks @ map (join [32]) gs, cur')"
      using False run len' by (simp add: Let_def)
    then show ?thesis
      using cat grp lt' by auto
  qed
qed

section \<open>The chunks as groups of words\<close>

lemma wsum_butlast_le: "wsum (butlast g) \<le> wsum g"
  by (cases g rule: rev_cases) (simp_all add: wsum_def)

lemma wsum_butlast_last:
  "g \<noteq> [] \<Longrightarrow> wsum g = wsum (butlast g) + (length (last g) + 1)"
  by (cases g rule: rev_cases) (simp_all add: wsum_def)

lemma make_chunks_groups:
  "\<exists>gs. make_chunks text = map (join [32]) gs
     \<and> concat gs = py_split text
     \<and> (\<forall>g\<in>set gs. g \<noteq> [] \<and> wsum (butlast g) < max_chunk_length)
     \<and> (\<forall>i. Suc i < length gs \<longrightarrow> max_chunk_length \<le> wsum (gs ! i))"
proof -
  have z: "wsum [] < max_chunk_length" "0 = wsum []"
    by (simp_all add: wsum_def max_chunk_length_def)
  from chunk_loop_groups [OF z, of "[]" "py_split text"]
  obtain gs cur' where
    run: "chunk_loop [] [] 0 (py_split text) = (map (join [32]) gs, cur')"
    and cat: "concat gs @ cur' = py_split text"
    and grp: "\<forall>g\<in>set gs. g \<noteq> [] \<and> max_chunk_length \<le> wsum g
                \<and> wsum (butlast g) < max_chunk_length"
    and lt: "wsum cur' < max_chunk_length"
    by auto
  show ?thesis
  proof (cases "cur' = []")
    case True
    have "make_chunks text = map (join [32]) gs"
      by (simp add: make_chunks_def run True)
    moreover have "\<forall>i. Suc i < length gs \<longrightarrow> max_chunk_length \<le> wsum (gs ! i)"
      using grp by simp
    ultimately show ?thesis
      using cat grp True by auto
  next
    case False
    have "make_chunks text = map (join [32]) (gs @ [cur'])"
      by (simp add: make_chunks_def run False)
    moreover have "concat (gs @ [cur']) = py_split text"
      using cat by simp
    moreover have "\<forall>g\<in>set (gs @ [cur']). g \<noteq> [] \<and> wsum (butlast g) < max_chunk_length"
      using grp False lt wsum_butlast_le [of cur'] by auto
    moreover have "\<forall>i. Suc i < length (gs @ [cur']) \<longrightarrow> max_chunk_length \<le> wsum ((gs @ [cur']) ! i)"
      using grp by (simp add: nth_append)
    ultimately show ?thesis
      by blast
  qed
qed

lemma groups_are_words:
  "concat gs = py_split text \<Longrightarrow> g \<in> set gs \<Longrightarrow> py_split (join [32] g) = g"
proof -
  assume cat: "concat gs = py_split text" and g: "g \<in> set gs"
  have "\<forall>w\<in>set g. is_word w"
  proof
    fix w assume "w \<in> set g"
    with g have "w \<in> set (concat gs)" by auto
    then show "is_word w"
      unfolding cat by (rule py_split_is_word)
  qed
  then show ?thesis
    by (rule py_split_join)
qed

lemma split_chunks:
  "concat gs = py_split text \<Longrightarrow> map py_split (map (join [32]) gs) = gs"
  by (simp add: map_idI groups_are_words)

lemma chunk_cases:
  assumes "i < length (make_chunks text)"
  obtains g where "make_chunks text ! i = join [32] g" "py_split (make_chunks text ! i) = g"
    "g \<noteq> []" "wsum (butlast g) < max_chunk_length"
    "Suc i < length (make_chunks text) \<Longrightarrow> max_chunk_length \<le> wsum g"
proof -
  from make_chunks_groups [of "text"] obtain gs where
    mc: "make_chunks text = map (join [32]) gs"
    and cat: "concat gs = py_split text"
    and ne: "\<forall>g\<in>set gs. g \<noteq> [] \<and> wsum (butlast g) < max_chunk_length"
    and ge: "\<forall>i. Suc i < length gs \<longrightarrow> max_chunk_length \<le> wsum (gs ! i)"
    by blast
  from assms have i: "i < length gs"
    by (simp add: mc)
  then have mem: "gs ! i \<in> set gs"
    by simp
  have 1: "make_chunks text ! i = join [32] (gs ! i)"
    using i by (simp add: mc)
  have 2: "py_split (make_chunks text ! i) = gs ! i"
    unfolding 1 using cat mem by (rule groups_are_words)
  show thesis
  proof (rule that [of "gs ! i"])
    show "Suc i < length (make_chunks text) \<Longrightarrow> max_chunk_length \<le> wsum (gs ! i)"
      using ge by (simp add: mc)
  qed (use 1 2 ne mem in auto)
qed

lemma chunk_length_last:
  assumes "c \<in> set (make_chunks text)"
  shows "wsum (butlast (py_split c)) < max_chunk_length"
    and "length c = wsum (butlast (py_split c)) + length (last (py_split c))"
proof -
  from assms obtain i where i: "i < length (make_chunks text)" and c: "c = make_chunks text ! i"
    by (auto simp: in_set_conv_nth)
  from i obtain g where g: "make_chunks text ! i = join [32] g"
    "py_split (make_chunks text ! i) = g" "g \<noteq> []" "wsum (butlast g) < max_chunk_length"
    by (rule chunk_cases)
  show "wsum (butlast (py_split c)) < max_chunk_length"
    using g by (simp add: c)
  have "length (join [32] g) + 1 = wsum (butlast g) + (length (last g) + 1)"
    using length_join [OF g(3)] wsum_butlast_last [OF g(3)] by simp
  then show "length c = wsum (butlast (py_split c)) + length (last (py_split c))"
    using g by (simp add: c)
qed

lemma make_chunks_long_pair:
  "make_chunks (replicate 600 97 @ 32 # replicate 600 98)
     = [replicate 600 97 @ 32 # replicate 600 98]"
proof -
  have sp: "is_space 32" by (simp add: is_space_def)
  have a: "is_word (replicate 600 97)" and b: "is_word (replicate 600 98)"
    by (simp_all add: is_word_def non_space_def is_space_def)
  have "py_split (replicate 600 97 @ 32 # replicate 600 98) = [replicate 600 97, replicate 600 98]"
    by (simp add: py_split_word_sep [OF a sp] py_split_word [OF b])
  then show ?thesis
    by (simp add: make_chunks_def max_chunk_length_def)
qed

lemma make_chunks_full_then_short:
  "make_chunks (replicate 1024 97 @ [32, 98]) = [replicate 1024 97, [98]]"
proof -
  have sp: "is_space 32" by (simp add: is_space_def)
  have a: "is_word (replicate 1024 97)" and b: "is_word [98]"
    by (simp_all add: is_word_def non_space_def is_space_def)
  have "py_split (replicate 1024 97 @ [32, 98]) = [replicate 1024 97, [98]]"
    by (simp add: py_split_word_sep [OF a sp] py_split_word [OF b])
  then show ?thesis
    by (simp add: make_chunks_def max_chunk_length_def)
qed

section \<open>Properties of the chunking step\<close>

text \<open>
  Claim C3. For every transcript, the words of the chunks (each chunk split at whitespace,
  which undoes the separators that \<open>join\<close> added), concatenated in the order of the
  chunks, are the words of the transcript: nothing is lost, so the last, partial chunk is
  flushed. No chunk is the empty string and no chunk has no word.
\<close>

theorem chunks_reproduce_words:
  "concat (map py_split (make_chunks text)) = py_split text
   \<and> [] \<notin> set (map py_split (make_chunks text))
   \<and> [] \<notin> set (make_chunks text)"
proof -
  from make_chunks_groups [of "text"] obtain gs where
    mc: "make_chunks text = map (join [32]) gs"
    and cat: "concat gs = py_split text"
    and ne: "\<forall>g\<in>set gs. g \<noteq> [] \<and> wsum (butlast g) < max_chunk_length"
    by blast
  have sp: "map py_split (make_chunks text) = gs"
    unfolding mc using cat by (rule split_chunks)
  have "[] \<notin> set (make_chunks text)"
  proof
    assume "[] \<in> set (make_chunks text)"
    then have "py_split [] \<in> set (map py_split (make_chunks text))"
      by simp
    then have "[] \<in> set gs"
      by (simp only: sp py_split_Nil)
    with ne show False by blast
  qed
  moreover have "[] \<notin> set gs"
    using ne by blast
  ultimately show ?thesis
    using cat by (simp only: sp) simp
qed

theorem chunks_reproduce_words_witness:
  "concat (map py_split (make_chunks (replicate 1024 97 @ [32, 98])))
     = [replicate 1024 97, [98]]
   \<and> py_split (replicate 1024 97 @ [32, 98]) = [replicate 1024 97, [98]]"
proof -
  have sp: "is_space 32" by (simp add: is_space_def)
  have a: "is_word (replicate 1024 97)" and b: "is_word [98]"
    by (simp_all add: is_word_def non_space_def is_space_def)
  have "py_split (replicate 1024 97 @ [32, 98]) = [replicate 1024 97, [98]]"
    by (simp add: py_split_word_sep [OF a sp] py_split_word [OF b])
  then show ?thesis
    using chunks_reproduce_words [of "replicate 1024 97 @ [32, 98]"] by simp
qed

text \<open>
  Claim C2 as stated fails. With two words of 600 characters the second word is appended
  although the chunk then has 1201 characters: the length is tested after the word is
  appended, and the only chunk is the whole text.
\<close>

theorem chunk_over_limit_counterexample:
  "make_chunks (replicate 600 97 @ 32 # replicate 600 98)
     = [replicate 600 97 @ 32 # replicate 600 98]
   \<and> \<not> length (replicate 600 97 @ 32 # replicate 600 (98::nat)) \<le> 1024"
  by (simp add: make_chunks_long_pair)

text \<open>
  Claim C2, amended. A word is appended to the current chunk before the running length is
  compared with 1024, so the bound holds for the chunk without its last word: the lengths
  of the other words, each counted with one separator, total less than 1024, and the chunk
  has at most 1023 characters more than its last word.
\<close>

theorem chunk_before_last_word_bounded:
  "\<forall>c\<in>set (make_chunks text).
     wsum (butlast (py_split c)) < 1024 \<and> length c \<le> 1023 + length (last (py_split c))"
proof
  fix c assume c: "c \<in> set (make_chunks text)"
  from chunk_length_last [OF c]
  show "wsum (butlast (py_split c)) < 1024 \<and> length c \<le> 1023 + length (last (py_split c))"
    by (simp add: max_chunk_length_def)
qed

theorem chunk_before_last_word_bounded_witness:
  "replicate 600 97 @ 32 # replicate 600 98
     \<in> set (make_chunks (replicate 600 97 @ 32 # replicate 600 98))
   \<and> wsum (butlast (py_split (replicate 600 97 @ 32 # replicate 600 98))) < 1024
   \<and> length (replicate 600 97 @ 32 # replicate 600 (98::nat))
       \<le> 1023 + length (last (py_split (replicate 600 97 @ 32 # replicate 600 98)))"
  using chunk_before_last_word_bounded [of "replicate 600 97 @ 32 # replicate 600 98"]
  by (simp add: make_chunks_long_pair)

text \<open>
  Claim C9. Every chunk but the last was flushed inside the loop, when the running length
  had reached the threshold: the lengths of its words, each counted with one separator,
  total at least 1024, so the chunk has at least 1023 characters. The test comes after the
  word is appended, so a chunk is at most 1024 characters longer than its last word, and
  there are chunks longer than 1024 characters.
\<close>

theorem flushed_chunks_reach_threshold:
  "(\<forall>i. Suc i < length (make_chunks text) \<longrightarrow>
        1024 \<le> wsum (py_split (make_chunks text ! i)) \<and> 1023 \<le> length (make_chunks text ! i))
   \<and> (\<forall>c\<in>set (make_chunks text). length c \<le> 1024 + length (last (py_split c)))
   \<and> (\<exists>t c. c \<in> set (make_chunks t) \<and> 1024 < length c)"
proof (intro conjI allI impI ballI)
  fix i assume i: "Suc i < length (make_chunks text)"
  then have "i < length (make_chunks text)"
    by simp
  then obtain g where g: "make_chunks text ! i = join [32] g"
    "py_split (make_chunks text ! i) = g" "g \<noteq> []" "wsum (butlast g) < max_chunk_length"
    and ge: "Suc i < length (make_chunks text) \<Longrightarrow> max_chunk_length \<le> wsum g"
    by (rule chunk_cases) blast
  from ge [OF i] show "1024 \<le> wsum (py_split (make_chunks text ! i))"
    by (simp add: g(2) max_chunk_length_def)
  from ge [OF i] length_join [OF g(3)] show "1023 \<le> length (make_chunks text ! i)"
    by (simp add: g(1) max_chunk_length_def)
next
  fix c assume "c \<in> set (make_chunks text)"
  from chunk_length_last [OF this] show "length c \<le> 1024 + length (last (py_split c))"
    by (simp add: max_chunk_length_def)
next
  have "replicate 600 97 @ 32 # replicate 600 98
          \<in> set (make_chunks (replicate 600 97 @ 32 # replicate 600 98))"
    by (simp add: make_chunks_long_pair)
  moreover have "1024 < length (replicate 600 97 @ 32 # replicate 600 (98::nat))"
    by simp
  ultimately show "\<exists>t c. c \<in> set (make_chunks t) \<and> 1024 < length c"
    by blast
qed

theorem flushed_chunks_reach_threshold_witness:
  "Suc 0 < length (make_chunks (replicate 1024 97 @ [32, 98]))
   \<and> 1024 \<le> wsum (py_split (make_chunks (replicate 1024 97 @ [32, 98]) ! 0))
   \<and> 1023 \<le> length (make_chunks (replicate 1024 97 @ [32, 98]) ! 0)
   \<and> [98] \<in> set (make_chunks (replicate 1024 97 @ [32, 98]))
   \<and> length [98::nat] \<le> 1024 + length (last (py_split [98]))"
  using flushed_chunks_reach_threshold [of "replicate 1024 97 @ [32, 98]"]
  by (simp add: make_chunks_full_then_short)

section \<open>Properties of the summarization loop\<close>

lemma summarizer_calls_append:
  "summarizer_calls (xs @ ys) = summarizer_calls xs @ summarizer_calls ys"
  by (induction xs rule: summarizer_calls.induct) simp_all

lemma summarize_loop_returns:
  "\<forall>c\<in>set chunks. 50 < length (py_split c) \<longrightarrow> (\<exists>s. summarizer env c max_length = Inr s) \<Longrightarrow>
   \<exists>evs' new.
     summarize_loop env max_length n i evs summaries chunks = (evs', Inr (summaries @ new))
     \<and> summarizer_calls evs'
          = summarizer_calls evs @ filter (\<lambda>c. 50 < length (py_split c)) chunks
     \<and> map Inr new
          = map (\<lambda>c. summarizer env c max_length) (filter (\<lambda>c. 50 < length (py_split c)) chunks)"
proof (induction chunks arbitrary: i evs summaries)
  case Nil
  then show ?case by simp
next
  case (Cons chunk chunks)
  let ?p = "Print (asc ''  Extracting key points from chunk '' @ decimal (i + 1)
                     @ [47] @ decimal n @ asc ''...'')"
  from Cons.prems have rest:
    "\<forall>c\<in>set chunks. 50 < length (py_split c) \<longrightarrow> (\<exists>s. summarizer env c max_length = Inr s)"
    by simp
  show ?case
  proof (cases "50 < length (py_split chunk)")
    case True
    with Cons.prems obtain s where s: "summarizer env chunk max_length = Inr s"
      by auto
    from Cons.IH [OF rest, of "i + 1" "(evs @ [?p]) @ [Summarizer chunk]" "summaries @ [s]"]
    obtain evs' new where
      run: "summarize_loop env max_length n (i + 1) ((evs @ [?p]) @ [Summarizer chunk])
              (summaries @ [s]) chunks = (evs', Inr ((summaries @ [s]) @ new))"
      and calls: "summarizer_calls evs' = summarizer_calls ((evs @ [?p]) @ [Summarizer chunk])
                    @ filter (\<lambda>c. 50 < length (py_split c)) chunks"
      and sums: "map Inr new = map (\<lambda>c. summarizer env c max_length)
                    (filter (\<lambda>c. 50 < length (py_split c)) chunks)"
      by blast
    have "summarize_loop env max_length n i evs summaries (chunk # chunks)
            = (evs', Inr (summaries @ s # new))"
      using True s run by (simp add: Let_def)
    moreover have "summarizer_calls evs' = summarizer_calls evs
                     @ filter (\<lambda>c. 50 < length (py_split c)) (chunk # chunks)"
      using True calls by (simp add: summarizer_calls_append)
    moreover have "map Inr (s # new) = map (\<lambda>c. summarizer env c max_length)
                     (filter (\<lambda>c. 50 < length (py_split c)) (chunk # chunks))"
      using True sums s by simp
    ultimately show ?thesis
      by blast
  next
    case False
    from Cons.IH [OF rest, of "i + 1" "evs @ [?p]" summaries]
    obtain evs' new where
      run: "summarize_loop env max_length n (i + 1) (evs @ [?p]) summaries chunks
              = (evs', Inr (summaries @ new))"
      and calls: "summarizer_calls evs' = summarizer_calls (evs @ [?p])
                    @ filter (\<lambda>c. 50 < length (py_split c)) chunks"
      and sums: "map Inr new = map (\<lambda>c. summarizer env c max_length)
                    (filter (\<lambda>c. 50 < length (py_split c)) chunks)"
      by blast
    have "summarize_loop env max_length n i evs summaries (chunk # chunks)
            = (evs', Inr (summaries @ new))"
      using False run by (simp add: Let_def)
    moreover have "summarizer_calls evs' = summarizer_calls evs
                     @ filter (\<lambda>c. 50 < length (py_split c)) (chunk # chunks)"
      using False calls by (simp add: summarizer_calls_append)
    ultimately show ?thesis
      using False sums by auto
  qed
qed

lemma py_split_repeated_word:
  "py_split (join [32] (replicate k [97])) = replicate k [97]"
  by (rule py_split_join) (simp add: is_word_def non_space_def is_space_def)

text \<open>
  Claim C1 as stated fails at 50 words: the test is \<open>len(chunk.split()) > 50\<close>, and a chunk
  of exactly 50 words is not passed to the model and gives no summary.
\<close>

theorem chunk_of_50_words_counterexample:
  "length (py_split (join [32] (replicate 50 [97]))) = 50
   \<and> summarizer_calls (fst (summarize_loop sample_engines 130 1 0 [] []
        [join [32] (replicate 50 [97])])) = []
   \<and> snd (summarize_loop sample_engines 130 1 0 [] [] [join [32] (replicate 50 [97])]) = Inr []"
  by (simp add: py_split_repeated_word Let_def)

text \<open>
  Claim C1, amended. A chunk is skipped exactly when it has at most 50 words. When the
  model returns on every chunk of more than 50 words, the loop returns; the chunks passed
  to the model are the chunks of more than 50 words, in order, and each contributes the
  summary that the model gave for it.
\<close>

theorem chunks_over_50_words_summarized:
  assumes "\<forall>c\<in>set chunks. 50 < length (py_split c) \<longrightarrow> (\<exists>s. summarizer env c max_length = Inr s)"
  shows "\<exists>evs' summaries.
     summarize_loop env max_length n i evs [] chunks = (evs', Inr summaries)
     \<and> summarizer_calls evs'
          = summarizer_calls evs @ filter (\<lambda>c. 50 < length (py_split c)) chunks
     \<and> map Inr summaries
          = map (\<lambda>c. summarizer env c max_length) (filter (\<lambda>c. 50 < length (py_split c)) chunks)"
  using summarize_loop_returns [OF assms, of n i evs "[]"] by simp

theorem chunks_over_50_words_summarized_witness:
  "summarizer_calls (fst (summarize_loop sample_engines 130 2 0 [] []
      [join [32] (replicate 51 [97]), join [32] (replicate 50 [97])]))
     = [join [32] (replicate 51 [97])]
   \<and> snd (summarize_loop sample_engines 130 2 0 [] []
      [join [32] (replicate 51 [97]), join [32] (replicate 50 [97])])
     = Inr [join [32] (replicate 51 [97])]"
proof -
  have ok: "\<forall>c\<in>set [join [32] (replicate 51 [97]), join [32] (replicate 50 [97])].
      50 < length (py_split c) \<longrightarrow> (\<exists>s. summarizer sample_engines c 130 = Inr s)"
    by (simp add: sample_engines_def)
  have len: "length (join [32] (replicate 51 [97::nat])) \<le> 130"
    using length_join [of "replicate 51 [97]"] by (simp add: wsum_def sum_list_replicate)
  from chunks_over_50_words_summarized [OF ok, of 2 0 "[]"] len show ?thesis
    by (auto simp add: py_split_repeated_word sample_engines_def)
qed

section \<open>Properties of \<open>format_bullet_points\<close>\<close>

lemma set_strip: "set (strip s) \<subseteq> set s"
proof -
  have "set (strip s) \<subseteq> set (rev (dropWhile is_space s))"
    unfolding strip_def set_rev by (auto dest: set_dropWhileD)
  also have "\<dots> \<subseteq> set s"
    by (auto dest: set_dropWhileD)
  finally show ?thesis .
qed

lemma split_on_not_Nil: "split_on sep s \<noteq> []"
  by (induction s) (auto split: list.splits)

lemma set_split_on: "p \<in> set (split_on sep s) \<Longrightarrow> set p \<subseteq> set s"
proof (induction s arbitrary: p)
  case Nil
  then show ?case by simp
next
  case (Cons c cs)
  show ?case
  proof (cases "c = sep")
    case True
    with Cons show ?thesis by auto
  next
    case False
    obtain w ws where sp: "split_on sep cs = w # ws"
      using split_on_not_Nil [of sep cs] by (cases "split_on sep cs") auto
    from Cons.prems False sp have "p = c # w \<or> p \<in> set ws"
      by simp
    then show ?thesis
    proof
      assume "p = c # w"
      moreover have "set w \<subseteq> set cs"
        by (rule Cons.IH) (simp add: sp)
      ultimately show ?thesis by auto
    next
      assume "p \<in> set ws"
      then have "set p \<subseteq> set cs"
        by (intro Cons.IH) (simp add: sp)
      then show ?thesis by auto
    qed
  qed
qed

lemma set_py_replace: "set (py_replace old new s) \<subseteq> set s \<union> set new"
proof (induction old new s rule: py_replace.induct)
  case (1 old new)
  then show ?case by auto
next
  case (2 old new c cs)
  show ?case
  proof (cases "old = []")
    case True
    with 2 show ?thesis by auto
  next
    case False
    show ?thesis
    proof (cases "take (length old) (c # cs) = old")
      case True
      have "set (py_replace old new (drop (length old - 1) cs))
              \<subseteq> set (drop (length old - 1) cs) \<union> set new"
        using False True by (rule "2.IH"(2))
      also have "\<dots> \<subseteq> set cs \<union> set new"
        using set_drop_subset [of "length old - 1" cs] by auto
      finally show ?thesis
        using False True by (auto simp del: py_replace.simps simp add: py_replace.simps(2) [of old new c cs])
    next
      case nomatch: False
      have "set (py_replace old new cs) \<subseteq> set cs \<union> set new"
        using False nomatch by (rule "2.IH"(3))
      then show ?thesis
        using False nomatch by (auto simp del: py_replace.simps simp add: py_replace.simps(2) [of old new c cs])
    qed
  qed
qed

lemma split_on_no_sep: "sep \<notin> set w \<Longrightarrow> split_on sep w = [w]"
  by (induction w) auto

lemma split_on_append_sep:
  "sep \<notin> set w \<Longrightarrow> split_on sep (w @ sep # rest) = w # split_on sep rest"
  by (induction w) auto

lemma split_on_join:
  "bs \<noteq> [] \<Longrightarrow> \<forall>b\<in>set bs. sep \<notin> set b \<Longrightarrow> split_on sep (join [sep] bs) = bs"
proof (induction "[sep]" bs rule: join.induct)
  case 1
  then show ?case by simp
next
  case (2 w)
  then show ?case by (simp add: split_on_no_sep)
next
  case (3 w v ws)
  then show ?case by (simp add: split_on_append_sep)
qed

lemma sentence_loop_all:
  "\<forall>b\<in>set acc. Q b \<Longrightarrow>
   \<forall>s\<in>set sentences. 15 < length (strip s) \<longrightarrow> Q ([8226, 32] @ strip s) \<Longrightarrow>
   \<forall>b\<in>set (sentence_loop acc sentences). Q b"
proof (induction sentences arbitrary: acc)
  case Nil
  then show ?case by simp
next
  case (Cons s sentences)
  from Cons.prems(2) have rest:
    "\<forall>s\<in>set sentences. 15 < length (strip s) \<longrightarrow> Q ([8226, 32] @ strip s)"
    by simp
  show ?case
  proof (cases "15 < length (strip s)")
    case True
    with Cons.prems have "\<forall>b\<in>set (acc @ [[8226, 32] @ strip s]). Q b"
      by simp
    from Cons.IH [OF this rest] True show ?thesis
      by (simp add: Let_def)
  next
    case False
    from Cons.IH [OF Cons.prems(1) rest] False show ?thesis
      by (simp add: Let_def)
  qed
qed

lemma summary_loop_all:
  "\<forall>b\<in>set acc. Q b \<Longrightarrow>
   \<forall>summary\<in>set summaries.
      \<forall>s\<in>set (split_on 124 (py_replace [46, 32] [46, 124] summary)).
         15 < length (strip s) \<longrightarrow> Q ([8226, 32] @ strip s) \<Longrightarrow>
   \<forall>b\<in>set (summary_loop acc summaries). Q b"
proof (induction summaries arbitrary: acc)
  case Nil
  then show ?case by simp
next
  case (Cons summary summaries)
  have "\<forall>b\<in>set (sentence_loop acc (split_on 124 (py_replace [46, 32] [46, 124] summary))). Q b"
    using Cons.prems by (intro sentence_loop_all) simp_all
  then have "\<forall>b\<in>set (summary_loop
      (sentence_loop acc (split_on 124 (py_replace [46, 32] [46, 124] summary))) summaries). Q b"
    using Cons.prems(2) by (intro Cons.IH) simp_all
  then show ?case
    by simp
qed

lemma fragment_chars:
  assumes "s \<in> set (split_on 124 (py_replace [46, 32] [46, 124] summary))"
  shows "set (strip s) \<subseteq> set summary \<union> {46, 124}"
proof -
  have "set (strip s) \<subseteq> set s"
    by (rule set_strip)
  also have "set s \<subseteq> set (py_replace [46, 32] [46, 124] summary)"
    using assms by (rule set_split_on)
  also have "\<dots> \<subseteq> set summary \<union> set [46, 124]"
    by (rule set_py_replace)
  finally show ?thesis
    by simp
qed

lemma bullet_points_no_newline:
  assumes "\<forall>summary\<in>set summaries. 10 \<notin> set summary"
  shows "\<forall>b\<in>set (bullet_points summaries). 10 \<notin> set b"
  unfolding bullet_points_def
proof (rule summary_loop_all)
  show "\<forall>b\<in>set []. (10::nat) \<notin> set b"
    by simp
  show "\<forall>summary\<in>set summaries.
      \<forall>s\<in>set (split_on 124 (py_replace [46, 32] [46, 124] summary)).
         15 < length (strip s) \<longrightarrow> 10 \<notin> set ([8226, 32] @ strip s)"
  proof (intro ballI impI)
    fix summary s
    assume "summary \<in> set summaries"
      and "s \<in> set (split_on 124 (py_replace [46, 32] [46, 124] summary))"
    with assms fragment_chars [of s summary]
    show "10 \<notin> set ([8226, 32] @ strip s)"
      by auto
  qed
qed

lemma bullet_points_entries:
  "\<forall>b\<in>set (bullet_points summaries).
      \<exists>sentence. b = [8226, 32] @ sentence \<and> 15 < length sentence"
  unfolding bullet_points_def by (rule summary_loop_all) auto

lemma py_replace_dot_space: "py_replace [46, 32] [46, 124] s = dot_space_marked s"
  by (induction s rule: dot_space_marked.induct) auto

lemma join_Cons_head: "join sep ((c # w) # ws) = c # join sep (w # ws)"
  by (cases ws) simp_all

lemma join_split_on: "join [sep] (split_on sep s) = s"
proof (induction s)
  case Nil
  then show ?case by simp
next
  case (Cons c cs)
  obtain w ws where sp: "split_on sep cs = w # ws"
    using split_on_not_Nil [of sep cs] by (cases "split_on sep cs") auto
  show ?case
  proof (cases "c = sep")
    case True
    with Cons sp show ?thesis by simp
  next
    case False
    with Cons sp show ?thesis by (simp add: join_Cons_head)
  qed
qed

lemma sentence_loop_eq:
  "sentence_loop acc sentences =
     acc @ map (\<lambda>s. [8226, 32] @ strip s) (filter (\<lambda>s. 15 < length (strip s)) sentences)"
  by (induction sentences arbitrary: acc) (simp_all add: Let_def)

lemma summary_loop_eq:
  "summary_loop acc summaries =
     acc @ concat (map (\<lambda>summary. map (\<lambda>s. [8226, 32] @ strip s)
                          (filter (\<lambda>s. 15 < length (strip s))
                             (split_on 124 (py_replace [46, 32] [46, 124] summary))))
                     summaries)"
  by (induction summaries arbitrary: acc) (simp_all add: sentence_loop_eq)

text \<open>
  Claim C7 as stated fails: a fragment is stripped at its ends only, so a newline inside
  it stays, and the text returned then has a line that is not an entry. With the summary
  of sixteen letters, a newline, the bullet glyph, a space and one letter, the second line
  of the result is a bullet line of 3 characters.
\<close>

theorem bullet_lines_counterexample:
  "split_on 10 (format_bullet_points
     [[120, 120, 120, 120, 120, 120, 120, 120, 120, 120, 120, 120, 120, 120, 120, 120,
       10, 8226, 32, 121]])
     = [[8226, 32, 120, 120, 120, 120, 120, 120, 120, 120, 120, 120, 120, 120, 120, 120, 120, 120],
        [8226, 32, 121]]
   \<and> length [8226, 32, 121::nat] = 3"
  by (simp add: format_bullet_points_def bullet_points_def strip_def is_space_def Let_def)

text \<open>
  Claim C7, amended. The entries that \<open>format_bullet_points\<close> joins with newlines are,
  in order, the fragments of the summaries (the pieces between the markers, stripped) that
  are longer than 15 characters, each after the bullet glyph and a space; so every entry
  has at least 16 characters. The entries are the lines of the result when no summary
  contains a newline.
\<close>

theorem bullet_entries_at_least_16:
  "bullet_points summaries =
     concat (map (\<lambda>summary. map (\<lambda>s. [8226, 32] @ strip s)
                    (filter (\<lambda>s. 15 < length (strip s))
                       (split_on 124 (py_replace [46, 32] [46, 124] summary))))
               summaries)
   \<and> format_bullet_points summaries = join [10] (bullet_points summaries)
   \<and> (\<forall>b\<in>set (bullet_points summaries). 16 \<le> length b)
   \<and> ((\<forall>summary\<in>set summaries. 10 \<notin> set summary) \<and> bullet_points summaries \<noteq> [] \<longrightarrow>
         split_on 10 (format_bullet_points summaries) = bullet_points summaries)"
proof (intro conjI impI)
  show "bullet_points summaries =
     concat (map (\<lambda>summary. map (\<lambda>s. [8226, 32] @ strip s)
                    (filter (\<lambda>s. 15 < length (strip s))
                       (split_on 124 (py_replace [46, 32] [46, 124] summary))))
               summaries)"
    by (simp add: bullet_points_def summary_loop_eq)
  show "format_bullet_points summaries = join [10] (bullet_points summaries)"
    by (simp add: format_bullet_points_def)
  show "\<forall>b\<in>set (bullet_points summaries). 16 \<le> length b"
    using bullet_points_entries [of summaries] by auto
next
  assume a: "(\<forall>summary\<in>set summaries. 10 \<notin> set summary) \<and> bullet_points summaries \<noteq> []"
  then have "\<forall>b\<in>set (bullet_points summaries). 10 \<notin> set b"
    by (intro bullet_points_no_newline) simp
  with a show "split_on 10 (format_bullet_points summaries) = bullet_points summaries"
    unfolding format_bullet_points_def by (intro split_on_join) simp_all
qed

theorem bullet_entries_at_least_16_witness:
  "bullet_points [asc ''Sixteen chars ok. No.''] = [[8226, 32] @ asc ''Sixteen chars ok.'']
   \<and> format_bullet_points [asc ''Sixteen chars ok. No.''] = [8226, 32] @ asc ''Sixteen chars ok.''
   \<and> 16 \<le> length ([8226, 32] @ asc ''Sixteen chars ok.'')
   \<and> split_on 10 (format_bullet_points [asc ''Sixteen chars ok. No.''])
       = [[8226, 32] @ asc ''Sixteen chars ok.'']"
proof -
  have b: "bullet_points [asc ''Sixteen chars ok. No.''] = [[8226, 32] @ asc ''Sixteen chars ok.'']"
    by (simp add: bullet_points_def asc_def strip_def is_space_def Let_def)
  have n: "\<forall>summary\<in>set [asc ''Sixteen chars ok. No.'']. 10 \<notin> set summary"
    by (simp add: asc_def)
  have f: "format_bullet_points [asc ''Sixteen chars ok. No.''] = [8226, 32] @ asc ''Sixteen chars ok.''"
    by (simp add: format_bullet_points_def b)
  have l: "split_on 10 ([8226, 32] @ asc ''Sixteen chars ok.'') = [[8226, 32] @ asc ''Sixteen chars ok.'']"
    by (simp add: asc_def)
  have k: "16 \<le> length ([8226, 32] @ asc ''Sixteen chars ok.'')"
    by (simp add: asc_def)
  from bullet_entries_at_least_16 [of "[asc ''Sixteen chars ok. No.'']"] n show ?thesis
    by (simp only: b f l k simp_thms)
qed

section \<open>Properties of \<open>save_notes\<close>\<close>



















section \<open>Properties of \<open>process_video\<close>\<close>

text \<open>
  Claim C6. When the extraction of the audio raises, \<open>extract_audio\<close> prints the error and
  returns \<open>None\<close>; \<open>process_video\<close> then returns \<open>None\<close>, and its effects are the banner and
  those of \<open>extract_audio\<close>: no transcription, no call of the model, no file written.
\<close>

theorem extraction_failure_aborts:
  "(video_to_audio env video_path audio_path = Some e \<longrightarrow>
      extract_audio env video_path audio_path
        = ([Print (127925 # asc '' Extracting audio from '' @ video_path @ asc ''...''),
            Video_to_audio video_path audio_path,
            Print (10060 # asc '' Error extracting audio: '' @ str_exn e)],
           None))
   \<and> (video_to_audio env video_path (asc ''temp_audio.mp3'') = Some e \<longrightarrow>
      process_video env video_path language output_file
        = ([Print ([10] @ replicate 60 61),
            Print (127916 # asc '' Processing: '' @ video_path),
            Print (replicate 60 61 @ [10]),
            Print (127925 # asc '' Extracting audio from '' @ video_path @ asc ''...''),
            Video_to_audio video_path (asc ''temp_audio.mp3''),
            Print (10060 # asc '' Error extracting audio: '' @ str_exn e)],
           Inr None)
      \<and> filter later_stage (fst (process_video env video_path language output_file)) = [])"
proof (intro conjI impI)
  assume "video_to_audio env video_path audio_path = Some e"
  then show "extract_audio env video_path audio_path
        = ([Print (127925 # asc '' Extracting audio from '' @ video_path @ asc ''...''),
            Video_to_audio video_path audio_path,
            Print (10060 # asc '' Error extracting audio: '' @ str_exn e)],
           None)"
    by (simp add: extract_audio_def Let_def)
next
  assume "video_to_audio env video_path (asc ''temp_audio.mp3'') = Some e"
  then have none: "extract_audio env video_path (asc ''temp_audio.mp3'')
        = ([Print (127925 # asc '' Extracting audio from '' @ video_path @ asc ''...''),
            Video_to_audio video_path (asc ''temp_audio.mp3''),
            Print (10060 # asc '' Error extracting audio: '' @ str_exn e)],
           None)"
    by (simp add: extract_audio_def Let_def)
  then show run: "process_video env video_path language output_file
        = ([Print ([10] @ replicate 60 61),
            Print (127916 # asc '' Processing: '' @ video_path),
            Print (replicate 60 61 @ [10]),
            Print (127925 # asc '' Extracting audio from '' @ video_path @ asc ''...''),
            Video_to_audio video_path (asc ''temp_audio.mp3''),
            Print (10060 # asc '' Error extracting audio: '' @ str_exn e)],
           Inr None)"
    by (simp add: process_video_def Let_def)
  show "filter later_stage (fst (process_video env video_path language output_file)) = []"
    by (simp add: run)
qed

theorem extraction_failure_aborts_witness:
  "video_to_audio no_audio_engines (asc ''lecture.mp4'') (asc ''temp_audio.mp3'')
     = Some (Exception (asc ''no audio track''))
   \<and> snd (extract_audio no_audio_engines (asc ''lecture.mp4'') (asc ''temp_audio.mp3'')) = None
   \<and> snd (process_video no_audio_engines (asc ''lecture.mp4'') (asc ''en'') (asc ''notes.txt''))
       = Inr None
   \<and> filter later_stage
        (fst (process_video no_audio_engines (asc ''lecture.mp4'') (asc ''en'') (asc ''notes.txt'')))
       = []"
proof -
  have h: "video_to_audio no_audio_engines (asc ''lecture.mp4'') (asc ''temp_audio.mp3'')
     = Some (Exception (asc ''no audio track''))"
    by (simp add: no_audio_engines_def sample_engines_def)
  from extraction_failure_aborts [of no_audio_engines "asc ''lecture.mp4''" "asc ''temp_audio.mp3''"
      "Exception (asc ''no audio track'')" "asc ''en''" "asc ''notes.txt''"] h
  show ?thesis
    by simp
qed
















section \<open>Properties of \<open>split_into_sentences\<close>\<close>

lemma adjacent_tail: "\<not> adjacent P (c # cs) \<Longrightarrow> \<not> adjacent P cs"
  by (cases cs) auto

lemma no_delimiter_tail: "no_delimiter dig (c # cs) \<Longrightarrow> no_delimiter dig cs"
  unfolding no_delimiter_def using adjacent_tail [of hyphen_space c cs]
    adjacent_tail [of "digit_paren dig" c cs] by simp

lemma digits_paren_None: "\<not> adjacent (digit_paren dig) s \<Longrightarrow> digits_paren dig s = None"
proof (induction s)
  case Nil
  then show ?case by simp
next
  case (Cons c cs)
  from Cons.prems have "\<not> adjacent (digit_paren dig) cs"
    by (rule adjacent_tail)
  then have rest: "digits_paren dig cs = None"
    by (rule Cons.IH)
  have "dig c \<Longrightarrow> take 1 cs \<noteq> [41]"
  proof (cases cs)
    case Nil
    then show ?thesis by simp
  next
    case (Cons b bs)
    assume "dig c"
    with Cons.prems show ?thesis
      unfolding Cons by (simp add: digit_paren_def)
  qed
  with rest show ?case
    by simp
qed

lemma match_delimiter_None: "no_delimiter dig s \<Longrightarrow> match_delimiter dig s = None"
proof (cases s)
  case Nil
  then show ?thesis by simp
next
  case (Cons c cs)
  assume nd: "no_delimiter dig s"
  from nd have "\<not> adjacent (digit_paren dig) (c # cs)"
    unfolding Cons no_delimiter_def by simp
  then have dp: "digits_paren dig (c # cs) = None"
    by (rule digits_paren_None)
  have hs: "\<not> (c = 45 \<and> take 1 cs = [32])"
  proof (cases cs)
    case Nil
    then show ?thesis by simp
  next
    case (Cons b bs)
    from nd have "\<not> adjacent hyphen_space (c # b # bs)"
      unfolding \<open>s = c # cs\<close> Cons no_delimiter_def by simp
    then show ?thesis
      unfolding Cons by (simp add: hyphen_space_def)
  qed
  from nd have ne: "c \<noteq> 10" "c \<noteq> 8226" "c \<noteq> 42"
    unfolding Cons no_delimiter_def by auto
  have "match_delimiter dig (c # cs) = digits_paren dig (c # cs)"
    using hs ne by (cases "c = 45") (simp_all del: digits_paren.simps)
  then show ?thesis
    unfolding Cons by (simp only: dp)
qed

lemma re_split_no_delimiter: "no_delimiter dig s \<Longrightarrow> re_split dig piece s = [piece @ s]"
proof (induction s arbitrary: piece)
  case Nil
  then show ?case by simp
next
  case (Cons c cs)
  from Cons.prems have m: "match_delimiter dig (c # cs) = None"
    by (rule match_delimiter_None)
  from Cons.prems have "no_delimiter dig cs"
    by (rule no_delimiter_tail)
  then have "re_split dig (piece @ [c]) cs = [(piece @ [c]) @ cs]"
    by (rule Cons.IH)
  then show ?case
    by (simp add: m del: match_delimiter.simps)
qed

lemma strip_space_hi: "strip [32, 104, 105] = [104, 105]"
  by (simp add: strip_def is_space_def)

lemma no_delimiter_space_hi: "no_delimiter ascii_digit [32, 104, 105]"
  by (simp add: no_delimiter_def hyphen_space_def digit_paren_def ascii_digit_def)

lemma re_split_space_hi: "re_split ascii_digit [] [32, 104, 105] = [[32, 104, 105]]"
  by (simp add: ascii_digit_def)

text \<open>
  Claim C8 as stated fails: the pieces are stripped and the empty ones dropped. A text
  without delimiter that starts with a space gives the text without the space, and the
  empty text gives no sentence at all.
\<close>

theorem whole_text_counterexample:
  "no_delimiter ascii_digit [32, 104, 105]
   \<and> split_into_sentences ascii_digit [32, 104, 105] = [[104, 105]]
   \<and> split_into_sentences ascii_digit [32, 104, 105] \<noteq> [[32, 104, 105]]
   \<and> no_delimiter ascii_digit []
   \<and> split_into_sentences ascii_digit [] = []"
  by (simp add: no_delimiter_space_hi re_split_space_hi strip_space_hi split_into_sentences_def)
    (simp add: no_delimiter_def strip_def)

text \<open>
  Claim C8, amended. For a text without delimiter, \<open>split_into_sentences\<close> returns the
  text stripped of the whitespace at both ends as the only sentence, and no sentence when
  nothing but whitespace is in the text.
\<close>

theorem no_delimiter_one_stripped_sentence:
  assumes "no_delimiter dig text"
  shows "split_into_sentences dig text = (if strip text = [] then [] else [strip text])"
  using re_split_no_delimiter [OF assms, of "[]"] by (simp add: split_into_sentences_def)

theorem no_delimiter_one_stripped_sentence_witness:
  "no_delimiter ascii_digit (asc '' step 2 of 3 '')
   \<and> split_into_sentences ascii_digit (asc '' step 2 of 3 '') = [asc ''step 2 of 3'']"
proof -
  have h: "no_delimiter ascii_digit (asc '' step 2 of 3 '')"
    by (simp add: no_delimiter_def asc_def hyphen_space_def digit_paren_def ascii_digit_def)
  have s: "strip (asc '' step 2 of 3 '') = asc ''step 2 of 3''"
    by (simp add: strip_def asc_def is_space_def)
  have ne: "asc ''step 2 of 3'' \<noteq> []"
    by (simp add: asc_def)
  from no_delimiter_one_stripped_sentence [OF h] h show ?thesis
    by (simp only: s ne if_False simp_thms)
qed

section \<open>Properties of \<open>answer_question\<close>\<close>

lemma sorted_map_le_last:
  assumes "sorted (map f xs)" "x \<in> set xs"
  shows "f x \<le> f (last xs)"
proof (cases "x = last xs")
  case True
  then show ?thesis by simp
next
  case False
  from assms(2) have ne: "xs \<noteq> []"
    by auto
  then have xs: "xs = butlast xs @ [last xs]"
    by simp
  with assms(2) False have "x \<in> set (butlast xs)"
    by (metis Un_iff empty_iff empty_set insert_iff list.simps(15) set_append)
  moreover from assms(1) have "sorted (map f (butlast xs) @ [f (last xs)])"
    by (subst (asm) xs) simp
  ultimately show ?thesis
    by (auto simp: sorted_append)
qed

lemma ascending_argsort_last:
  assumes "ascending_argsort sims idx" "i < length sims"
  shows "idx \<noteq> []" "last idx < length sims" "sims ! i \<le> sims ! last idx"
proof -
  from assms(1) have s: "sort idx = [0..<length sims]" and o: "sorted (map (\<lambda>i. sims ! i) idx)"
    by (simp_all add: ascending_argsort_def)
  have set: "set idx = {0..<length sims}"
    using s by (metis set_sort set_upt)
  with assms(2) show ne: "idx \<noteq> []"
    by auto
  then have "last idx \<in> set idx"
    by simp
  with set show "last idx < length sims"
    by simp
  from set assms(2) have "i \<in> set idx"
    by simp
  with o show "sims ! i \<le> sims ! last idx"
    by (rule sorted_map_le_last)
qed

lemma words_cat_dog: "py_split [99, 97, 116, 32, 100, 111, 103] = [[99, 97, 116], [100, 111, 103]]"
proof -
  have sp: "is_space 32" by (simp add: is_space_def)
  have a: "is_word [99, 97, 116]" and b: "is_word [100, 111, 103]"
    by (simp_all add: is_word_def non_space_def is_space_def)
  show ?thesis
    using py_split_word_sep [OF a sp, of "[100, 111, 103]"] py_split_word [OF b] by simp
qed

lemma words_dog_cat: "py_split [100, 111, 103, 32, 99, 97, 116] = [[100, 111, 103], [99, 97, 116]]"
proof -
  have sp: "is_space 32" by (simp add: is_space_def)
  have a: "is_word [99, 97, 116]" and b: "is_word [100, 111, 103]"
    by (simp_all add: is_word_def non_space_def is_space_def)
  show ?thesis
    using py_split_word_sep [OF b sp, of "[99, 97, 116]"] py_split_word [OF a] by simp
qed

lemma pets_sentences:
  "split_into_sentences ascii_digit (asc ''cat dog'' @ 10 # asc ''dog cat'')
     = [asc ''cat dog'', asc ''dog cat'']"
  by (simp add: split_into_sentences_def asc_def ascii_digit_def strip_def is_space_def)

lemma pets_knowledge_base:
  "build_knowledge_base word_count_library ascii_digit (asc ''pets.txt'')
     = Inr ([asc ''cat dog'', asc ''dog cat''], (),
            [[asc ''cat'', asc ''dog''], [asc ''dog'', asc ''cat'']])"
proof -
  have "map py_split [asc ''cat dog'', asc ''dog cat'']
      = [[asc ''cat'', asc ''dog''], [asc ''dog'', asc ''cat'']]"
    by (simp add: asc_def words_cat_dog words_dog_cat)
  then show ?thesis
    by (simp add: build_knowledge_base_def load_text_from_txt_def word_count_library_def
        pets_sentences Let_def)
qed

text \<open>
  Claim C4 as stated fails on a tie. The units \<open>cat dog\<close> and \<open>dog cat\<close> have the same
  words and so the same score against the question \<open>cat dog\<close>; the reversed order of
  \<open>argsort\<close> puts the second unit first, and the answer is \<open>dog cat\<close>.
\<close>

theorem self_match_tie_counterexample:
  "build_knowledge_base word_count_library ascii_digit (asc ''pets.txt'')
     = Inr ([asc ''cat dog'', asc ''dog cat''], (),
            [[asc ''cat'', asc ''dog''], [asc ''dog'', asc ''cat'']])
   \<and> answer_question word_count_library (asc ''cat dog'') [asc ''cat dog'', asc ''dog cat''] ()
        [[asc ''cat'', asc ''dog''], [asc ''dog'', asc ''cat'']] 1
       = Inr ([10, 128204] @ asc '' Most Relevant Answer:'' @ [10] @ asc ''dog cat'')
   \<and> asc ''dog cat'' \<noteq> asc ''cat dog''"
proof -
  have "answer_question word_count_library (asc ''cat dog'') [asc ''cat dog'', asc ''dog cat''] ()
        [[asc ''cat'', asc ''dog''], [asc ''dog'', asc ''cat'']] 1
       = Inr ([10, 128204] @ asc '' Most Relevant Answer:'' @ [10] @ asc ''dog cat'')"
    by (simp add: answer_question_def word_count_library_def shared_words_def py_take_def
        asc_def words_cat_dog Let_def upt_rec)
  moreover have "asc ''dog cat'' \<noteq> asc ''cat dog''"
    by (simp add: asc_def)
  ultimately show ?thesis
    using pets_knowledge_base by simp
qed

text \<open>
  Claim C4, amended. For a knowledge base built from a file and a question that is the
  text of one of its units, \<open>answer_question\<close> with \<open>top_k = 1\<close> returns that text when
  \<open>argsort\<close> orders the scores ascending and every unit with another text scores strictly
  lower against the question than the question itself.
\<close>

theorem self_match_when_strictly_best:
  fixes lib :: "('m, 'v, 's::linorder) library"
  assumes "build_knowledge_base lib dig txt_file = Inr (sentences, vectorizer, sentence_vectors)"
    and "question \<in> set sentences"
    and "ascending_argsort
           (map (cosine_similarity lib (tfidf_transform lib vectorizer question)) sentence_vectors)
           (argsort lib
              (map (cosine_similarity lib (tfidf_transform lib vectorizer question)) sentence_vectors))"
    and "\<forall>unit\<in>set sentences. unit \<noteq> question \<longrightarrow>
           cosine_similarity lib (tfidf_transform lib vectorizer question)
             (tfidf_transform lib vectorizer unit)
           < cosine_similarity lib (tfidf_transform lib vectorizer question)
               (tfidf_transform lib vectorizer question)"
  shows "answer_question lib question sentences vectorizer sentence_vectors 1
           = Inr ([10, 128204] @ asc '' Most Relevant Answer:'' @ [10] @ question)"
proof -
  let ?q = "tfidf_transform lib vectorizer question"
  let ?sims = "map (cosine_similarity lib ?q) sentence_vectors"
  let ?idx = "argsort lib ?sims"
  from assms(1) have vecs: "sentence_vectors = map (tfidf_transform lib vectorizer) sentences"
    by (auto simp: build_knowledge_base_def Let_def split: sum.splits)
  then have len: "length ?sims = length sentences"
    by simp
  from assms(2) obtain i where i: "i < length sentences" and qi: "sentences ! i = question"
    by (auto simp: in_set_conv_nth)
  have i': "i < length ?sims"
    using i len by simp
  note last = ascending_argsort_last [OF assms(3) i']
  let ?k = "last ?idx"
  have k: "?k < length sentences"
    using last(2) len by simp
  have sim: "\<And>j. j < length sentences \<Longrightarrow>
      ?sims ! j = cosine_similarity lib ?q (tfidf_transform lib vectorizer (sentences ! j))"
    by (simp add: vecs)
  have "sentences ! ?k = question"
  proof (rule ccontr)
    assume ne: "sentences ! ?k \<noteq> question"
    have "sentences ! ?k \<in> set sentences"
      using k by simp
    with assms(4) ne have "?sims ! ?k < ?sims ! i"
      by (simp only: sim [OF k] sim [OF i] qi) blast
    with last(3) show False
      by simp
  qed
  moreover have "py_take 1 (rev ?idx) = [?k]"
    using last(1) by (cases ?idx rule: rev_cases) (simp_all add: py_take_def)
  ultimately show ?thesis
    using k by (simp add: answer_question_def Let_def)
qed

lemma words_big_dog: "py_split [98, 105, 103, 32, 100, 111, 103] = [[98, 105, 103], [100, 111, 103]]"
proof -
  have sp: "is_space 32" by (simp add: is_space_def)
  have a: "is_word [98, 105, 103]" and b: "is_word [100, 111, 103]"
    by (simp_all add: is_word_def non_space_def is_space_def)
  show ?thesis
    using py_split_word_sep [OF a sp, of "[100, 111, 103]"] py_split_word [OF b] by simp
qed

lemma words_cat: "py_split [99, 97, 116] = [[99, 97, 116]]"
  by (rule py_split_word) (simp add: is_word_def non_space_def is_space_def)

lemma notes_sentences:
  "split_into_sentences ascii_digit (asc ''cat'' @ 10 # asc ''big dog'')
     = [asc ''cat'', asc ''big dog'']"
  by (simp add: split_into_sentences_def asc_def ascii_digit_def strip_def is_space_def)

lemma notes_knowledge_base:
  "build_knowledge_base word_count_library ascii_digit (asc ''notes.txt'')
     = Inr ([asc ''cat'', asc ''big dog''], (), [[asc ''cat''], [asc ''big'', asc ''dog'']])"
proof -
  have "map py_split [asc ''cat'', asc ''big dog''] = [[asc ''cat''], [asc ''big'', asc ''dog'']]"
    by (simp add: asc_def words_cat words_big_dog)
  moreover have "asc ''notes.txt'' \<noteq> asc ''pets.txt''"
    by (simp add: asc_def)
  ultimately show ?thesis
    by (simp add: build_knowledge_base_def load_text_from_txt_def word_count_library_def
        notes_sentences Let_def)
qed

theorem self_match_when_strictly_best_witness:
  "build_knowledge_base word_count_library ascii_digit (asc ''notes.txt'')
     = Inr ([asc ''cat'', asc ''big dog''], (), [[asc ''cat''], [asc ''big'', asc ''dog'']])
   \<and> asc ''cat'' \<in> set [asc ''cat'', asc ''big dog'']
   \<and> answer_question word_count_library (asc ''cat'') [asc ''cat'', asc ''big dog''] ()
        [[asc ''cat''], [asc ''big'', asc ''dog'']] 1
       = Inr ([10, 128204] @ asc '' Most Relevant Answer:'' @ [10] @ asc ''cat'')"
proof -
  have mem: "asc ''cat'' \<in> set [asc ''cat'', asc ''big dog'']"
    by simp
  have sims: "map (cosine_similarity word_count_library
                (tfidf_transform word_count_library () (asc ''cat'')))
              [[asc ''cat''], [asc ''big'', asc ''dog'']] = [1, 0]"
    by (simp add: word_count_library_def shared_words_def asc_def words_cat)
  have ord: "ascending_argsort
           (map (cosine_similarity word_count_library
                   (tfidf_transform word_count_library () (asc ''cat'')))
              [[asc ''cat''], [asc ''big'', asc ''dog'']])
           (argsort word_count_library
              (map (cosine_similarity word_count_library
                      (tfidf_transform word_count_library () (asc ''cat'')))
                 [[asc ''cat''], [asc ''big'', asc ''dog'']]))"
    unfolding sims by (simp add: ascending_argsort_def word_count_library_def upt_rec)
  have best: "\<forall>unit\<in>set [asc ''cat'', asc ''big dog'']. unit \<noteq> asc ''cat'' \<longrightarrow>
           cosine_similarity word_count_library
             (tfidf_transform word_count_library () (asc ''cat''))
             (tfidf_transform word_count_library () unit)
           < cosine_similarity word_count_library
               (tfidf_transform word_count_library () (asc ''cat''))
               (tfidf_transform word_count_library () (asc ''cat''))"
    by (simp add: word_count_library_def shared_words_def asc_def words_cat words_big_dog)
  from self_match_when_strictly_best [OF notes_knowledge_base mem ord best]
    notes_knowledge_base mem
  show ?thesis
    by blast
qed

end
